theory Spec2Isabelle
  imports Main "HOL-Library.Multiset"
begin

unbundle bit_operations_syntax

section \<open>The Kademlia node and registry of \<^verbatim>\<open>src/kademlia/kademlia.py\<close>\<close>

text \<open>
  Python integers are unbounded, so identifiers, distances and the bucket capacity are
  \<^typ>\<open>int\<close>; \<open>XOR\<close> on \<^typ>\<open>int\<close> is Python's \<^verbatim>\<open>^\<close> (two's complement of
  unbounded width). A \<^verbatim>\<open>KademliaNode\<close> is a record of its four attributes. The
  dictionaries \<^verbatim>\<open>storage\<close> and \<^verbatim>\<open>nodes\<close> are maps. The only exception the
  modelled methods can raise is \<^verbatim>\<open>IndexError\<close>.
\<close>

datatype error = IndexError

record node =
  node_id :: int
  k :: int
  buckets :: "int list list"
  storage :: "int \<rightharpoonup> string"

record kademlia_dht =
  nodes :: "int \<rightharpoonup> node"

text \<open>
  \<^verbatim>\<open>int(hashlib.sha1(key.encode()).hexdigest(), 16)\<close> is a library function outside the
  repository: every operation that hashes a key takes the hash as a parameter.
\<close>

type_synonym hash = "string \<Rightarrow> int"

text \<open>
  \<^verbatim>\<open>KademliaNode.__init__\<close> with an explicit, non-zero \<^verbatim>\<open>node_id\<close> (for \<^verbatim>\<open>None\<close>
  or \<^verbatim>\<open>0\<close> the source draws \<^verbatim>\<open>random.getrandbits(160)\<close>; the model takes the
  identifier that results): 160 empty buckets and an empty storage.
\<close>

definition init_node :: "int \<Rightarrow> int \<Rightarrow> node" where
  "init_node nid cap = \<lparr>node_id = nid, k = cap, buckets = replicate 160 [], storage = Map.empty\<rparr>"

text \<open>\<^verbatim>\<open>KademliaDHT.__init__\<close>.\<close>

definition init_dht :: kademlia_dht where
  "init_dht = \<lparr>nodes = Map.empty\<rparr>"

text \<open>An identifier of the 160-bit address space.\<close>

definition valid_id :: "int \<Rightarrow> bool" where
  "valid_id x \<longleftrightarrow> 0 \<le> x \<and> x < 2 ^ 160"

subsection \<open>Distance and bucket index\<close>

definition distance :: "int \<Rightarrow> int \<Rightarrow> int" where
  "distance id1 id2 = id1 XOR id2"

text \<open>
  Python's \<^verbatim>\<open>int.bit_length()\<close>: the number of binary digits of the absolute value,
  0 for 0.
\<close>

fun bit_length_nat :: "nat \<Rightarrow> nat" where
  "bit_length_nat n = (if n = 0 then 0 else Suc (bit_length_nat (n div 2)))"

declare bit_length_nat.simps [simp del]

definition bit_length :: "int \<Rightarrow> int" where
  "bit_length x = int (bit_length_nat (nat \<bar>x\<bar>))"

definition bucket_index :: "node \<Rightarrow> int \<Rightarrow> int" where
  "bucket_index n nid =
     (let d = distance (node_id n) nid
      in if d > 0 then bit_length d - 1 else 0)"

subsection \<open>Routing table insertion\<close>

text \<open>
  Python list indexing \<^verbatim>\<open>xs[i]\<close>: a negative index counts from the end, and an index
  out of range raises \<^verbatim>\<open>IndexError\<close>. The result is the position read.
\<close>

definition py_index :: "'a list \<Rightarrow> int \<Rightarrow> error + nat" where
  "py_index xs i =
     (let len = int (length xs); j = (if i < 0 then len + i else i)
      in if 0 \<le> j \<and> j < len then Inr (nat j) else Inl IndexError)"

text \<open>
  Lines 26 to 34 of \<^verbatim>\<open>add_node\<close>, on the bucket selected: \<^verbatim>\<open>remove\<close> deletes the
  first occurrence, \<^verbatim>\<open>append\<close> adds at the tail, and \<^verbatim>\<open>pop(0)\<close> deletes the head and
  raises \<^verbatim>\<open>IndexError\<close> on an empty list.
\<close>

definition bucket_insert :: "int \<Rightarrow> int list \<Rightarrow> int \<Rightarrow> error + int list" where
  "bucket_insert cap bucket nid =
     (if nid \<in> set bucket then Inr (remove1 nid bucket @ [nid])
      else if int (length bucket) < cap then Inr (bucket @ [nid])
      else (case bucket of
              [] \<Rightarrow> Inl IndexError
            | _ # rest \<Rightarrow> Inr (rest @ [nid])))"

definition add_node :: "node \<Rightarrow> int \<Rightarrow> error + node" where
  "add_node n nid =
     (if nid = node_id n then Inr n
      else
        (case py_index (buckets n) (bucket_index n nid) of
           Inl e \<Rightarrow> Inl e
         | Inr bucket_idx \<Rightarrow>
             (case bucket_insert (k n) (buckets n ! bucket_idx) nid of
                Inl e \<Rightarrow> Inl e
              | Inr bucket \<Rightarrow> Inr (n\<lparr>buckets := (buckets n)[bucket_idx := bucket]\<rparr>))))"

text \<open>A sequence of insertions; an exception ends it.\<close>

fun add_nodes :: "node \<Rightarrow> int list \<Rightarrow> error + node" where
  "add_nodes n [] = Inr n"
| "add_nodes n (nid # rest) =
     (case add_node n nid of Inl e \<Rightarrow> Inl e | Inr n' \<Rightarrow> add_nodes n' rest)"

subsection \<open>Closest nodes\<close>

text \<open>Python's slice \<^verbatim>\<open>xs[:c]\<close>: a negative \<^verbatim>\<open>c\<close> drops \<^verbatim>\<open>-c\<close> items from the end.\<close>

definition py_slice_to :: "'a list \<Rightarrow> int \<Rightarrow> 'a list" where
  "py_slice_to xs c =
     (if 0 \<le> c then take (nat c) xs else take (length xs - nat (- c)) xs)"

text \<open>
  \<^verbatim>\<open>count or self.k\<close> is \<^verbatim>\<open>self.k\<close> when \<^verbatim>\<open>count\<close> is \<^verbatim>\<open>None\<close> or \<^verbatim>\<open>0\<close>.
  \<^verbatim>\<open>list.sort\<close> is stable, as \<^const>\<open>sort_key\<close> is.
\<close>

definition find_closest_nodes :: "node \<Rightarrow> int \<Rightarrow> int option \<Rightarrow> int list" where
  "find_closest_nodes n target_id cnt =
     (let count' = (case cnt of None \<Rightarrow> k n | Some c \<Rightarrow> if c = 0 then k n else c);
          all_nodes = concat (buckets n)
      in py_slice_to (sort_key (\<lambda>x. distance target_id x) all_nodes) count')"

subsection \<open>Local storage\<close>

definition store :: "hash \<Rightarrow> node \<Rightarrow> string \<Rightarrow> string \<Rightarrow> node" where
  "store H n key val = n\<lparr>storage := (storage n)(H key \<mapsto> val)\<rparr>"

definition find_value :: "hash \<Rightarrow> node \<Rightarrow> string \<Rightarrow> string option" where
  "find_value H n key = storage n (H key)"

subsection \<open>Registry and lookup\<close>

definition dht_add_node :: "kademlia_dht \<Rightarrow> node \<Rightarrow> kademlia_dht" where
  "dht_add_node dht n = dht\<lparr>nodes := (nodes dht)(node_id n \<mapsto> n)\<rparr>"

text \<open>
  The truth value of an \<^verbatim>\<open>Optional[str]\<close> in \<^verbatim>\<open>if value:\<close>: \<^verbatim>\<open>None\<close> and the empty
  string are false.
\<close>

definition truthy :: "string option \<Rightarrow> bool" where
  "truthy v = (case v of None \<Rightarrow> False | Some s \<Rightarrow> s \<noteq> [])"

text \<open>The loop of lines 80 to 84 over the candidates, and the \<^verbatim>\<open>return None\<close> after it.\<close>

fun query_closest :: "hash \<Rightarrow> kademlia_dht \<Rightarrow> string \<Rightarrow> int list \<Rightarrow> string option" where
  "query_closest H dht target_key [] = None"
| "query_closest H dht target_key (close_node_id # rest) =
     (case nodes dht close_node_id of
        None \<Rightarrow> query_closest H dht target_key rest
      | Some m \<Rightarrow>
          (let val = find_value H m target_key
           in if truthy val then val else query_closest H dht target_key rest))"

definition lookup :: "hash \<Rightarrow> kademlia_dht \<Rightarrow> int \<Rightarrow> string \<Rightarrow> string option" where
  "lookup H dht nid target_key =
     (case nodes dht nid of
        None \<Rightarrow> None
      | Some n \<Rightarrow>
          (let key_hash = H target_key;
               val = find_value H n target_key
           in if truthy val then val
              else query_closest H dht target_key (find_closest_nodes n key_hash None)))"

subsection \<open>Example nodes\<close>

text \<open>
  Node \<^verbatim>\<open>0x10\<close> with \<^verbatim>\<open>k = 3\<close> of \<^verbatim>\<open>demonstrate_lookup_process\<close> in
  \<^verbatim>\<open>algorithm_explained.py\<close>, after it has learnt \<^verbatim>\<open>0x20\<close>, \<^verbatim>\<open>0x30\<close>,
  \<^verbatim>\<open>0x40\<close> and \<^verbatim>\<open>0x50\<close>; the key hash of that demonstration is \<^verbatim>\<open>0x35\<close>.
\<close>

definition node_x :: node where
  "node_x = (init_node 16 3)\<lparr>buckets := (replicate 160 [])[5 := [32, 48], 6 := [64, 80]]\<rparr>"

definition demo_hash :: hash where
  "demo_hash key = 53"

text \<open>
  Nodes \<^verbatim>\<open>0x10\<close> and \<^verbatim>\<open>0x20\<close> with the default \<^verbatim>\<open>k = 20\<close>, each having
  inserted the other.
\<close>

definition node_a :: node where
  "node_a = (init_node 16 20)\<lparr>buckets := (replicate 160 [])[5 := [32]]\<rparr>"

definition node_b :: node where
  "node_b = (init_node 32 20)\<lparr>buckets := (replicate 160 [])[5 := [16]]\<rparr>"

text \<open>
  A registry of both nodes in which each holds the empty string under the key
  \<^verbatim>\<open>"k2"\<close>.
\<close>

definition dht_empty_value :: kademlia_dht where
  "dht_empty_value =
     dht_add_node (dht_add_node init_dht (store demo_hash node_a ''k2'' []))
       (store demo_hash node_b ''k2'' [])"

text \<open>Node \<^verbatim>\<open>0x10\<close> with \<^verbatim>\<open>k = 2\<close> and a full bucket 5.\<close>

definition node_full :: node where
  "node_full = (init_node 16 2)\<lparr>buckets := (replicate 160 [])[5 := [32, 48]]\<rparr>"

subsection \<open>Predicates used in the statements\<close>

text \<open>
  The routing table invariant: 160 buckets, each of at most \<open>k\<close> distinct identifiers, none
  of them the node's own, each identifier in the bucket of its index.
\<close>

definition table_inv :: "node \<Rightarrow> bool" where
  "table_inv n \<longleftrightarrow>
     length (buckets n) = 160 \<and>
     (\<forall>i<160. int (length (buckets n ! i)) \<le> k n \<and> distinct (buckets n ! i)
        \<and> (\<forall>x\<in>set (buckets n ! i). x \<noteq> node_id n \<and> bucket_index n x = int i))"

text \<open>
  The (at most) \<open>cap\<close> most recently touched identifiers of a history of touches, the
  least recently touched first: \<^const>\<open>remdups\<close> keeps the last occurrence of every
  identifier, in the order of these last occurrences.
\<close>

definition most_recent :: "int \<Rightarrow> int list \<Rightarrow> int list" where
  "most_recent cap touched = (let r = remdups touched in drop (length r - nat cap) r)"

section \<open>Properties of the distance\<close>

lemma xor_or_and: "(x::int) XOR y = (x OR y) - (x AND y)"
proof -
  have "(x XOR y) + (x AND y) = (x XOR y) OR (x AND y)"
    by (rule disjunctive_add_eq_or) (auto simp: bit_eq_iff bit_simps)
  also have "\<dots> = x OR y"
    by (auto simp: bit_eq_iff bit_simps)
  finally show ?thesis by simp
qed

lemma xor_le_add: "0 \<le> (x::int) \<Longrightarrow> 0 \<le> y \<Longrightarrow> x XOR y \<le> x + y"
proof -
  assume a: "0 \<le> x" "0 \<le> y"
  have "x XOR y = (x OR y) - (x AND y)" by (rule xor_or_and)
  moreover have "(x AND y) + (x OR y) = x + y" by (rule plus_and_or)
  moreover have "0 \<le> x AND y" using a by simp
  ultimately show ?thesis by linarith
qed

lemma xor_triangle:
  "0 \<le> (a::int) \<Longrightarrow> 0 \<le> b \<Longrightarrow> 0 \<le> c \<Longrightarrow> a XOR c \<le> (a XOR b) + (b XOR c)"
proof -
  assume h: "0 \<le> a" "0 \<le> b" "0 \<le> c"
  have "a XOR c = (a XOR b) XOR (b XOR c)"
    by (auto simp: bit_eq_iff bit_simps)
  also have "\<dots> \<le> (a XOR b) + (b XOR c)"
    using h by (intro xor_le_add) simp_all
  finally show ?thesis .
qed

lemma xor_zero_iff: "(a::int) XOR b = 0 \<longleftrightarrow> a = b"
  by (metis bit.xor_left_self xor.right_neutral)

lemma xor_unique: "\<exists>!b::int. a XOR b = d"
  by (metis bit.xor_left_self)

lemma valid_id_xor:
  assumes "valid_id a" "valid_id b"
  shows "valid_id (a XOR b)"
proof -
  from assms have a: "0 \<le> a" "a < 2 ^ 160" and b: "0 \<le> b" "b < 2 ^ 160"
    unfolding valid_id_def by blast+
  from a b(2) have "a XOR b < 2 ^ 160" by (rule XOR_upper)
  moreover from a(1) b(1) have "0 \<le> a XOR b" by simp
  ultimately show ?thesis unfolding valid_id_def by blast
qed

section \<open>Properties of \<^const>\<open>bit_length\<close>\<close>

lemma bit_length_nat_upper: "n < 2 ^ bit_length_nat n"
proof (induction n rule: bit_length_nat.induct)
  case (1 n)
  show ?case
  proof (cases "n = 0")
    case True
    then show ?thesis by (simp add: bit_length_nat.simps)
  next
    case False
    with 1 have "n div 2 < 2 ^ bit_length_nat (n div 2)" by simp
    then have "n < 2 * 2 ^ bit_length_nat (n div 2)" by linarith
    with False show ?thesis by (subst bit_length_nat.simps) simp
  qed
qed

lemma bit_length_nat_lower: "0 < n \<Longrightarrow> 2 ^ (bit_length_nat n - 1) \<le> n"
proof (induction n rule: bit_length_nat.induct)
  case (1 n)
  then have n0: "n \<noteq> 0" by simp
  show ?case
  proof (cases "n div 2 = 0")
    case True
    then have "bit_length_nat (n div 2) = 0" by (simp add: bit_length_nat.simps)
    with n0 have "bit_length_nat n = 1" by (subst bit_length_nat.simps) simp
    with 1 show ?thesis by simp
  next
    case False
    with 1 n0 have ih: "2 ^ (bit_length_nat (n div 2) - 1) \<le> n div 2" by simp
    from False have pos: "0 < bit_length_nat (n div 2)"
      by (subst bit_length_nat.simps) simp
    have "bit_length_nat n = Suc (bit_length_nat (n div 2))"
      using n0 by (subst bit_length_nat.simps) simp
    then have "(2::nat) ^ (bit_length_nat n - 1) = 2 * 2 ^ (bit_length_nat (n div 2) - 1)"
      using pos by (cases "bit_length_nat (n div 2)") simp_all
    also have "\<dots> \<le> 2 * (n div 2)" using ih by simp
    also have "\<dots> \<le> n" by simp
    finally show ?thesis .
  qed
qed

lemma bit_length_nat_pos: "0 < n \<Longrightarrow> 0 < bit_length_nat n"
  by (subst bit_length_nat.simps) simp

lemma bit_length_nat_le_if_less_power: "n < 2 ^ m \<Longrightarrow> bit_length_nat n \<le> m"
proof (rule ccontr)
  assume lt: "n < 2 ^ m" and "\<not> bit_length_nat n \<le> m"
  then have m: "m \<le> bit_length_nat n - 1" and pos: "0 < n"
    by (auto simp: bit_length_nat.simps [of 0] intro: gr0I)
  have "(2::nat) ^ m \<le> 2 ^ (bit_length_nat n - 1)"
    using m by (simp add: power_increasing)
  also have "\<dots> \<le> n" using pos by (rule bit_length_nat_lower)
  finally show False using lt by simp
qed

lemma bit_length_nat_mono: "m \<le> n \<Longrightarrow> bit_length_nat m \<le> bit_length_nat n"
proof -
  assume "m \<le> n"
  then have "m < 2 ^ bit_length_nat n"
    using bit_length_nat_upper [of n] by simp
  then show ?thesis by (rule bit_length_nat_le_if_less_power)
qed

lemma bit_length_mono: "0 \<le> x \<Longrightarrow> x \<le> y \<Longrightarrow> bit_length x \<le> bit_length y"
  by (simp add: bit_length_def bit_length_nat_mono nat_mono)

lemma bit_length_pos: "0 < x \<Longrightarrow> 0 < bit_length x"
  by (simp add: bit_length_def bit_length_nat_pos)

lemma bit_length_upper: "0 \<le> x \<Longrightarrow> x < 2 ^ nat (bit_length x)"
proof -
  assume "0 \<le> x"
  then have "x = int (nat \<bar>x\<bar>)" by simp
  also have "\<dots> < int (2 ^ bit_length_nat (nat \<bar>x\<bar>))"
    using bit_length_nat_upper [of "nat \<bar>x\<bar>"] by (simp only: of_nat_less_iff)
  finally show ?thesis by (simp add: bit_length_def)
qed

lemma bit_length_lower: "0 < x \<Longrightarrow> 2 ^ nat (bit_length x - 1) \<le> x"
proof -
  assume pos: "0 < x"
  then have "int (2 ^ (bit_length_nat (nat \<bar>x\<bar>) - 1)) \<le> int (nat \<bar>x\<bar>)"
    using bit_length_nat_lower [of "nat \<bar>x\<bar>"] by (simp only: of_nat_le_iff)
  moreover have "nat (bit_length x - 1) = bit_length_nat (nat \<bar>x\<bar>) - 1"
    by (simp add: bit_length_def nat_diff_distrib')
  ultimately show ?thesis using pos by simp
qed

lemma bit_length_le_if_less_power: "0 \<le> x \<Longrightarrow> x < 2 ^ m \<Longrightarrow> bit_length x \<le> int m"
proof -
  assume "0 \<le> x" "x < 2 ^ m"
  then have "nat \<bar>x\<bar> < 2 ^ m"
    by (simp add: nat_less_iff)
  then show ?thesis
    by (simp add: bit_length_def bit_length_nat_le_if_less_power)
qed

lemma bit_length_numeral [simp]:
  "bit_length 0 = 0"
  "bit_length 1 = 1"
  "bit_length (numeral (Num.Bit0 m)) = 1 + bit_length (numeral m)"
  "bit_length (numeral (Num.Bit1 m)) = 1 + bit_length (numeral m)"
proof -
  show "bit_length 0 = 0" by (simp add: bit_length_def bit_length_nat.simps)
  show "bit_length 1 = 1" by (simp add: bit_length_def bit_length_nat.simps)
  have "bit_length_nat (numeral (Num.Bit0 m)) = Suc (bit_length_nat (numeral m))"
    by (subst bit_length_nat.simps) simp
  then show "bit_length (numeral (Num.Bit0 m)) = 1 + bit_length (numeral m)"
    by (simp add: bit_length_def)
  have "bit_length_nat (numeral (Num.Bit1 m)) = Suc (bit_length_nat (numeral m))"
    by (subst bit_length_nat.simps) simp
  then show "bit_length (numeral (Num.Bit1 m)) = 1 + bit_length (numeral m)"
    by (simp add: bit_length_def)
qed

section \<open>Properties of \<^const>\<open>bucket_index\<close>\<close>

lemma bucket_index_nonneg: "0 \<le> bucket_index n x"
  using bit_length_pos [of "distance (node_id n) x"]
  by (simp add: bucket_index_def Let_def)

lemma bucket_index_upper:
  assumes "valid_id (node_id n)" "valid_id x"
  shows "bucket_index n x < 160"
proof -
  have "valid_id (distance (node_id n) x)"
    using assms by (simp add: distance_def valid_id_xor)
  then have "0 \<le> distance (node_id n) x" "distance (node_id n) x < 2 ^ 160"
    unfolding valid_id_def by blast+
  then have "bit_length (distance (node_id n) x) \<le> int 160"
    by (rule bit_length_le_if_less_power)
  then show ?thesis by (simp add: bucket_index_def Let_def)
qed

lemma bucket_index_mono:
  assumes "distance (node_id n) x < distance (node_id n) y"
  shows "bucket_index n x \<le> bucket_index n y"
proof (cases "0 < distance (node_id n) x")
  case True
  with assms have "bit_length (distance (node_id n) x) \<le> bit_length (distance (node_id n) y)"
    by (intro bit_length_mono) simp_all
  with True assms show ?thesis by (simp add: bucket_index_def Let_def)
next
  case False
  then have "bucket_index n x = 0" by (simp add: bucket_index_def Let_def)
  then show ?thesis by (simp add: bucket_index_nonneg)
qed

section \<open>Properties of \<^const>\<open>find_closest_nodes\<close>\<close>

lemma py_slice_to_nonneg: "0 \<le> c \<Longrightarrow> py_slice_to xs c = take (nat c) xs"
  by (simp add: py_slice_to_def)

lemma find_closest_nodes_zero_is_default:
  "find_closest_nodes n t (Some 0) = find_closest_nodes n t None"
  by (simp add: find_closest_nodes_def)

lemma sorted_take_sort_key: "sorted (map f (take m (sort_key f xs)))"
proof -
  have "sorted (take m (map f (sort_key f xs)))"
    by (rule sorted_wrt_take) (rule sorted_sort_key)
  then show ?thesis by (simp add: take_map)
qed

lemma find_closest_nodes_positive_count:
  assumes "0 < c"
  shows "find_closest_nodes n t (Some c)
           = take (nat c) (sort_key (distance t) (concat (buckets n)))"
    and "sorted (map (distance t) (find_closest_nodes n t (Some c)))"
    and "length (find_closest_nodes n t (Some c)) = min (nat c) (length (concat (buckets n)))"
    and "int (length (concat (buckets n))) \<le> c
         \<Longrightarrow> mset (find_closest_nodes n t (Some c)) = mset (concat (buckets n))"
proof -
  show eq: "find_closest_nodes n t (Some c)
           = take (nat c) (sort_key (distance t) (concat (buckets n)))"
    using assms by (simp add: find_closest_nodes_def py_slice_to_def)
  show "sorted (map (distance t) (find_closest_nodes n t (Some c)))"
    unfolding eq by (rule sorted_take_sort_key)
  show "length (find_closest_nodes n t (Some c)) = min (nat c) (length (concat (buckets n)))"
    unfolding eq by simp
  show "mset (find_closest_nodes n t (Some c)) = mset (concat (buckets n))"
    if "int (length (concat (buckets n))) \<le> c"
    unfolding eq using that by simp
qed

section \<open>The example nodes\<close>

lemma node_x_reachable: "add_nodes (init_node 16 3) [32, 48, 64, 80] = Inr node_x"
  by (simp add: node_x_def add_node_def init_node_def bucket_index_def distance_def
      py_index_def bucket_insert_def)

lemma concat_node_x: "concat (buckets node_x) = [32, 48, 64, 80]"
  unfolding node_x_def init_node_def by code_simp

lemma node_a_reachable: "add_nodes (init_node 16 20) [32] = Inr node_a"
  by (simp add: node_a_def add_node_def init_node_def bucket_index_def distance_def
      py_index_def bucket_insert_def)

lemma node_b_reachable: "add_nodes (init_node 32 20) [16] = Inr node_b"
  by (simp add: node_b_def add_node_def init_node_def bucket_index_def distance_def
      py_index_def bucket_insert_def)

lemma concat_node_a: "concat (buckets node_a) = [32]"
  unfolding node_a_def init_node_def by code_simp

lemma concat_node_b: "concat (buckets node_b) = [16]"
  unfolding node_b_def init_node_def by code_simp

section \<open>Properties of \<^const>\<open>lookup\<close>\<close>

lemma truthy_iff: "truthy v \<longleftrightarrow> (\<exists>s. v = Some s \<and> s \<noteq> [])"
  by (cases v) (simp_all add: truthy_def)

lemma query_closest_None_iff:
  "query_closest H dht key cs = None \<longleftrightarrow>
     (\<forall>c\<in>set cs. \<forall>m. nodes dht c = Some m \<longrightarrow> \<not> truthy (find_value H m key))"
  by (induction cs) (auto simp: Let_def truthy_iff split: option.splits)

lemma query_closest_skips:
  "nodes dht c = None \<Longrightarrow> query_closest H dht key (c # cs) = query_closest H dht key cs"
  by simp

lemma query_closest_first_hit:
  assumes "\<forall>c\<in>set pre. \<forall>m. nodes dht c = Some m \<longrightarrow> \<not> truthy (find_value H m key)"
    and "nodes dht c = Some m" and "truthy (find_value H m key)"
  shows "query_closest H dht key (pre @ c # post) = find_value H m key"
  using assms by (induction pre) (auto simp: Let_def split: option.splits)

lemma query_closest_Some_iff:
  "query_closest H dht key cs = Some v \<longleftrightarrow>
     (\<exists>pre c m post. cs = pre @ c # post \<and> nodes dht c = Some m
        \<and> find_value H m key = Some v \<and> v \<noteq> []
        \<and> (\<forall>c'\<in>set pre. \<forall>m'. nodes dht c' = Some m' \<longrightarrow> \<not> truthy (find_value H m' key)))"
  (is "?L cs = ?R cs")
proof
  show "?L cs \<Longrightarrow> ?R cs"
  proof (induction cs)
    case Nil
    then show ?case by simp
  next
    case (Cons c cs)
    show ?case
    proof (cases "\<exists>m. nodes dht c = Some m \<and> truthy (find_value H m key)")
      case True
      then obtain m where m: "nodes dht c = Some m" "truthy (find_value H m key)" by blast
      with Cons.prems have "find_value H m key = Some v" by (simp add: Let_def)
      with m have "c # cs = [] @ c # cs \<and> nodes dht c = Some m
        \<and> find_value H m key = Some v \<and> v \<noteq> []
        \<and> (\<forall>c'\<in>set []. \<forall>m'. nodes dht c' = Some m' \<longrightarrow> \<not> truthy (find_value H m' key))"
        by (simp add: truthy_iff)
      then show ?thesis by blast
    next
      case False
      with Cons.prems have "query_closest H dht key cs = Some v"
        by (auto simp: Let_def split: option.splits)
      with Cons.IH obtain pre c' m post where
        "cs = pre @ c' # post" "nodes dht c' = Some m" "find_value H m key = Some v" "v \<noteq> []"
        "\<forall>c'\<in>set pre. \<forall>m'. nodes dht c' = Some m' \<longrightarrow> \<not> truthy (find_value H m' key)"
        by blast
      with False have "c # cs = (c # pre) @ c' # post \<and> nodes dht c' = Some m
        \<and> find_value H m key = Some v \<and> v \<noteq> []
        \<and> (\<forall>c'\<in>set (c # pre). \<forall>m'. nodes dht c' = Some m' \<longrightarrow> \<not> truthy (find_value H m' key))"
        by simp
      then show ?thesis by blast
    qed
  qed
next
  assume "?R cs"
  then obtain pre c m post where
    "cs = pre @ c # post" "nodes dht c = Some m" "find_value H m key = Some v" "v \<noteq> []"
    "\<forall>c'\<in>set pre. \<forall>m'. nodes dht c' = Some m' \<longrightarrow> \<not> truthy (find_value H m' key)"
    by blast
  then show "?L cs"
    using query_closest_first_hit [of pre dht H key c m post] by (simp add: truthy_iff)
qed

lemma lookup_unregistered: "nodes dht nid = None \<Longrightarrow> lookup H dht nid key = None"
  by (simp add: lookup_def)

lemma lookup_local_hit:
  "nodes dht nid = Some n \<Longrightarrow> truthy (find_value H n key)
   \<Longrightarrow> lookup H dht nid key = find_value H n key"
  by (simp add: lookup_def Let_def)

lemma lookup_local_miss:
  "nodes dht nid = Some n \<Longrightarrow> \<not> truthy (find_value H n key)
   \<Longrightarrow> lookup H dht nid key
       = query_closest H dht key (find_closest_nodes n (H key) None)"
  by (simp add: lookup_def Let_def)

lemma lookup_never_empty: "lookup H dht nid key \<noteq> Some []"
proof (cases "nodes dht nid")
  case None
  then show ?thesis by (simp add: lookup_unregistered)
next
  case (Some n)
  show ?thesis
  proof (cases "truthy (find_value H n key)")
    case True
    with Some show ?thesis by (auto simp: lookup_local_hit truthy_iff)
  next
    case False
    with Some show ?thesis
      by (simp add: lookup_local_miss query_closest_Some_iff)
  qed
qed

subsection \<open>Lookups in the example registries\<close>

lemma nodes_dht_empty_value:
  "nodes dht_empty_value 16 = Some (store demo_hash node_a ''k2'' [])"
  "nodes dht_empty_value 32 = Some (store demo_hash node_b ''k2'' [])"
  by (simp_all add: dht_empty_value_def dht_add_node_def init_dht_def store_def
      node_a_def node_b_def init_node_def)

lemma closest_node_a:
  "find_closest_nodes (store demo_hash node_a key v) 53 None = [32]"
  by (simp add: find_closest_nodes_def store_def concat_node_a py_slice_to_def)
    (simp add: node_a_def init_node_def)

lemma closest_node_a_plain: "find_closest_nodes node_a 53 None = [32]"
  by (simp add: find_closest_nodes_def concat_node_a py_slice_to_def)
    (simp add: node_a_def init_node_def)

lemma lookup_stale_candidate:
  "lookup demo_hash (dht_add_node init_dht node_a) 16 ''k2'' = None"
proof -
  have id: "node_id node_a = 16" and st: "storage node_a = Map.empty"
    by (simp_all add: node_a_def init_node_def)
  have reg: "nodes (dht_add_node init_dht node_a) 16 = Some node_a"
    "nodes (dht_add_node init_dht node_a) 32 = None"
    by (simp_all add: dht_add_node_def init_dht_def id)
  have miss: "\<not> truthy (find_value demo_hash node_a ''k2'')"
    by (simp add: find_value_def st truthy_def)
  show ?thesis
    by (simp add: lookup_local_miss [OF reg(1) miss] demo_hash_def closest_node_a_plain reg(2))
qed

lemma lookup_remote_candidate:
  "lookup demo_hash
     (dht_add_node (dht_add_node init_dht node_a) (store demo_hash node_b ''k2'' ''v2''))
     16 ''k2'' = Some ''v2''"
proof -
  let ?dht = "dht_add_node (dht_add_node init_dht node_a) (store demo_hash node_b ''k2'' ''v2'')"
  have id: "node_id node_a = 16" "node_id node_b = 32" and st: "storage node_a = Map.empty"
    by (simp_all add: node_a_def node_b_def init_node_def)
  have reg: "nodes ?dht 16 = Some node_a"
    "nodes ?dht 32 = Some (store demo_hash node_b ''k2'' ''v2'')"
    by (simp_all add: dht_add_node_def init_dht_def id store_def)
  have miss: "\<not> truthy (find_value demo_hash node_a ''k2'')"
    by (simp add: find_value_def st truthy_def)
  show ?thesis
    by (simp add: lookup_local_miss [OF reg(1) miss] demo_hash_def closest_node_a_plain reg(2))
      (simp add: find_value_def store_def truthy_def demo_hash_def)
qed

section \<open>Properties of \<^const>\<open>add_node\<close>\<close>

lemma bucket_insert_cases:
  assumes "0 < cap"
  shows "bucket_insert cap b x = Inr
           (if x \<in> set b then remove1 x b @ [x]
            else if int (length b) < cap then b @ [x]
            else tl b @ [x])"
proof (cases b)
  case Nil
  with assms show ?thesis by (simp add: bucket_insert_def)
next
  case (Cons y ys)
  then show ?thesis by (simp add: bucket_insert_def)
qed

lemma bucket_insert_set:
  assumes "bucket_insert cap b x = Inr b'"
  shows "x \<in> set b'" and "set b' \<subseteq> insert x (set b)"
  using assms
  by (auto simp: bucket_insert_def split: if_splits list.splits dest: notin_set_remove1)

lemma bucket_insert_distinct:
  assumes "bucket_insert cap b x = Inr b'" "distinct b"
  shows "distinct b'"
  using assms by (auto simp: bucket_insert_def split: if_splits list.splits)

lemma bucket_insert_length:
  assumes "bucket_insert cap b x = Inr b'" "int (length b) \<le> cap"
  shows "int (length b') \<le> cap"
proof (cases "x \<in> set b")
  case True
  then have "0 < length b" by (rule length_pos_if_in_set)
  with True assms show ?thesis
    by (auto simp: bucket_insert_def length_remove1)
next
  case False
  with assms show ?thesis
    by (auto simp: bucket_insert_def split: if_splits list.splits)
qed

lemma py_index_bucket:
  assumes "length bs = 160" "0 \<le> i" "i < 160"
  shows "py_index bs i = Inr (nat i)"
  using assms by (simp add: py_index_def Let_def)

lemma py_index_Inr:
  assumes "py_index bs i = Inr j" "0 \<le> i"
  shows "j = nat i" and "j < length bs"
  using assms by (auto simp: py_index_def Let_def split: if_splits)

lemma add_node_other:
  assumes "x \<noteq> node_id n" "length (buckets n) = 160" "valid_id (node_id n)" "valid_id x"
  shows "add_node n x =
     (case bucket_insert (k n) (buckets n ! nat (bucket_index n x)) x of
        Inl e \<Rightarrow> Inl e
      | Inr b \<Rightarrow> Inr (n\<lparr>buckets := (buckets n)[nat (bucket_index n x) := b]\<rparr>))"
proof -
  have "py_index (buckets n) (bucket_index n x) = Inr (nat (bucket_index n x))"
    using assms by (intro py_index_bucket bucket_index_nonneg bucket_index_upper)
  with assms(1) show ?thesis by (simp add: add_node_def)
qed

lemma add_node_fields:
  assumes "add_node n x = Inr n'"
  shows "node_id n' = node_id n" "k n' = k n" "storage n' = storage n"
    "length (buckets n') = length (buckets n)"
  using assms by (auto simp: add_node_def split: if_splits sum.splits)

lemma bucket_index_cong: "node_id n' = node_id n \<Longrightarrow> bucket_index n' x = bucket_index n x"
  by (simp add: bucket_index_def)

subsection \<open>The routing table invariant\<close>

lemma table_invI:
  assumes "length (buckets n) = 160"
    and "\<And>i. i < 160 \<Longrightarrow> int (length (buckets n ! i)) \<le> k n"
    and "\<And>i. i < 160 \<Longrightarrow> distinct (buckets n ! i)"
    and "\<And>i x. i < 160 \<Longrightarrow> x \<in> set (buckets n ! i)
           \<Longrightarrow> x \<noteq> node_id n \<and> bucket_index n x = int i"
  shows "table_inv n"
  unfolding table_inv_def using assms by blast

lemma table_invD:
  assumes "table_inv n"
  shows "length (buckets n) = 160"
    and "i < 160 \<Longrightarrow> int (length (buckets n ! i)) \<le> k n"
    and "i < 160 \<Longrightarrow> distinct (buckets n ! i)"
    and "i < 160 \<Longrightarrow> x \<in> set (buckets n ! i) \<Longrightarrow> x \<noteq> node_id n"
    and "i < 160 \<Longrightarrow> x \<in> set (buckets n ! i) \<Longrightarrow> bucket_index n x = int i"
  using assms unfolding table_inv_def by blast+

lemma table_inv_init: "0 \<le> cap \<Longrightarrow> table_inv (init_node s cap)"
  by (rule table_invI) (simp_all add: init_node_def)

lemma add_node_preserves_inv:
  assumes inv: "table_inv n" and res: "add_node n x = Inr n'"
  shows "table_inv n'"
proof (cases "x = node_id n")
  case True
  with res have "n' = n" by (simp add: add_node_def)
  with inv show ?thesis by simp
next
  case False
  note len = table_invD(1) [OF inv]
  from res False obtain j b where
    j: "py_index (buckets n) (bucket_index n x) = Inr j"
    and b: "bucket_insert (k n) (buckets n ! j) x = Inr b"
    and n': "n' = n\<lparr>buckets := (buckets n)[j := b]\<rparr>"
    by (auto simp: add_node_def split: sum.splits)
  from py_index_Inr [OF j bucket_index_nonneg] len
  have jx: "j = nat (bucket_index n x)" and jlt: "j < 160" by simp_all
  from jx have idx: "bucket_index n x = int j"
    using bucket_index_nonneg [of n x] by simp
  have id: "node_id n' = node_id n" "k n' = k n" using n' by simp_all
  have bi: "bucket_index n' y = bucket_index n y" for y
    using id(1) by (rule bucket_index_cong)
  have bs: "buckets n' = (buckets n)[j := b]" using n' by simp
  have same: "buckets n' ! j = b" using bs len jlt by simp
  have other: "buckets n' ! i = buckets n ! i" if "i \<noteq> j" for i
    using bs that by simp
  show ?thesis
  proof (rule table_invI)
    show "length (buckets n') = 160" using bs len by simp
  next
    fix i :: nat assume i: "i < 160"
    show "int (length (buckets n' ! i)) \<le> k n'"
    proof (cases "i = j")
      case True
      have "int (length b) \<le> k n"
        using b table_invD(2) [OF inv jlt] by (rule bucket_insert_length)
      with True same id show ?thesis by simp
    next
      case False
      with other [of i] table_invD(2) [OF inv i] id show ?thesis by simp
    qed
  next
    fix i :: nat assume i: "i < 160"
    show "distinct (buckets n' ! i)"
    proof (cases "i = j")
      case True
      have "distinct b"
        using b table_invD(3) [OF inv jlt] by (rule bucket_insert_distinct)
      with True same show ?thesis by simp
    next
      case False
      with other [of i] table_invD(3) [OF inv i] show ?thesis by simp
    qed
  next
    fix i :: nat and y assume i: "i < 160" and y: "y \<in> set (buckets n' ! i)"
    show "y \<noteq> node_id n' \<and> bucket_index n' y = int i"
    proof (cases "i = j")
      case True
      with y same have "y \<in> set b" by simp
      with bucket_insert_set(2) [OF b] have "y = x \<or> y \<in> set (buckets n ! j)" by auto
      then show ?thesis
      proof
        assume "y = x"
        with \<open>x \<noteq> node_id n\<close> idx True id bi show ?thesis by simp
      next
        assume "y \<in> set (buckets n ! j)"
        with table_invD(4,5) [OF inv jlt] True id bi show ?thesis by simp
      qed
    next
      case False
      with y other [of i] have "y \<in> set (buckets n ! i)" by simp
      with table_invD(4,5) [OF inv i] id bi show ?thesis by simp
    qed
  qed
qed

lemma add_node_total:
  assumes "length (buckets n) = 160" "0 < k n" "valid_id (node_id n)" "valid_id x"
  shows "\<exists>n'. add_node n x = Inr n'"
proof (cases "x = node_id n")
  case True
  then show ?thesis by (simp add: add_node_def)
next
  case False
  then show ?thesis
    using assms by (simp add: add_node_other bucket_insert_cases)
qed

lemma add_nodes_total_inv:
  assumes "table_inv n" "0 < k n" "valid_id (node_id n)" "\<forall>x\<in>set ids. valid_id x"
  shows "\<exists>n'. add_nodes n ids = Inr n' \<and> table_inv n' \<and> node_id n' = node_id n \<and> k n' = k n"
  using assms
proof (induction ids arbitrary: n)
  case Nil
  then show ?case by simp
next
  case (Cons x ids)
  from Cons.prems have "length (buckets n) = 160" by (simp add: table_invD(1))
  with Cons.prems obtain n1 where n1: "add_node n x = Inr n1"
    using add_node_total [of n x] by auto
  have "table_inv n1" using Cons.prems(1) n1 by (rule add_node_preserves_inv)
  moreover have f: "node_id n1 = node_id n" "k n1 = k n" using n1 by (rule add_node_fields)+
  ultimately obtain n' where "add_nodes n1 ids = Inr n'" "table_inv n'"
    "node_id n' = node_id n1" "k n' = k n1"
    using Cons.IH [of n1] Cons.prems by auto
  with n1 f show ?case by simp
qed

subsection \<open>Buckets hold the most recently touched identifiers\<close>

lemma remdups_snoc: "remdups (ys @ [x]) = removeAll x (remdups ys) @ [x]"
  by (induction ys) auto

lemma bucket_insert_suffix:
  assumes d: "distinct (p @ t)" and cap: "0 < c"
    and shape: "(p = [] \<and> length t \<le> c) \<or> length t = c"
  shows "bucket_insert (int c) t x
           = Inr (drop (length (removeAll x (p @ t) @ [x]) - c) (removeAll x (p @ t) @ [x]))"
proof -
  from cap have icap: "0 < int c" by simp
  from d have dp: "distinct p" and dt: "distinct t" and disj: "set p \<inter> set t = {}"
    by simp_all
  have rp: "removeAll x p = remove1 x p" using dp by (simp add: distinct_remove1_removeAll)
  have rt: "removeAll x t = remove1 x t" using dt by (simp add: distinct_remove1_removeAll)
  show ?thesis
  proof (cases "x \<in> set t")
    case True
    with disj have xp: "x \<notin> set p" by blast
    have tpos: "0 < length t" using True by (rule length_pos_if_in_set)
    have eq: "removeAll x (p @ t) @ [x] = p @ (remove1 x t @ [x])"
      using xp rt by simp
    have len: "length (remove1 x t @ [x]) = length t"
      using True tpos by (simp add: length_remove1)
    have "drop (length (p @ (remove1 x t @ [x])) - c) (p @ (remove1 x t @ [x]))
            = remove1 x t @ [x]"
      using shape len by auto
    with True eq show ?thesis
      by (simp only: bucket_insert_cases [OF icap]) simp
  next
    case False
    show ?thesis
    proof (cases "x \<in> set p")
      case True
      with shape have full: "length t = c" by auto
      with cap have tne: "t \<noteq> []" by auto
      have ppos: "0 < length p" using True by (rule length_pos_if_in_set)
      have eq: "removeAll x (p @ t) @ [x] = remove1 x p @ (t @ [x])"
        using False rp by simp
      have lp: "length (remove1 x p) = length p - 1"
        using True by (simp add: length_remove1)
      have "length (remove1 x p @ (t @ [x])) - c = length (remove1 x p) + 1"
        using lp ppos full by simp
      then have "drop (length (remove1 x p @ (t @ [x])) - c) (remove1 x p @ (t @ [x]))
              = drop 1 (t @ [x])"
        by simp
      also have "\<dots> = tl t @ [x]" using tne by (cases t) simp_all
      finally have "drop (length (remove1 x p @ (t @ [x])) - c) (remove1 x p @ (t @ [x]))
              = tl t @ [x]" .
      with False full eq show ?thesis
        by (simp only: bucket_insert_cases [OF icap]) simp
    next
      case notin: False
      have eq: "removeAll x (p @ t) @ [x] = p @ (t @ [x])"
        using False notin by simp
      show ?thesis
      proof (cases "length t < c")
        case True
        with shape have "p = []" by auto
        with True have "drop (length (p @ (t @ [x])) - c) (p @ (t @ [x])) = t @ [x]"
          by simp
        with False True eq show ?thesis
          by (simp only: bucket_insert_cases [OF icap]) simp
      next
        case nl: False
        with shape have full: "length t = c" by auto
        with cap have tne: "t \<noteq> []" by auto
        have "length (p @ (t @ [x])) - c = length p + 1" using full by simp
        then have "drop (length (p @ (t @ [x])) - c) (p @ (t @ [x])) = drop 1 (t @ [x])"
          by simp
        also have "\<dots> = tl t @ [x]" using tne by (cases t) simp_all
        finally have "drop (length (p @ (t @ [x])) - c) (p @ (t @ [x])) = tl t @ [x]" .
        with False nl eq show ?thesis
          by (simp only: bucket_insert_cases [OF icap]) simp
      qed
    qed
  qed
qed

lemma bucket_insert_last_part:
  assumes d: "distinct r" and cap: "0 < c"
  shows "bucket_insert (int c) (drop (length r - c) r) x
           = Inr (drop (length (removeAll x r @ [x]) - c) (removeAll x r @ [x]))"
proof -
  let ?p = "take (length r - c) r" and ?t = "drop (length r - c) r"
  have "distinct (?p @ ?t)" using d by simp
  moreover have "(?p = [] \<and> length ?t \<le> c) \<or> length ?t = c" by auto
  ultimately have "bucket_insert (int c) ?t x
      = Inr (drop (length (removeAll x (?p @ ?t) @ [x]) - c) (removeAll x (?p @ ?t) @ [x]))"
    using cap by (intro bucket_insert_suffix)
  then show ?thesis by simp
qed

lemma bucket_insert_most_recent:
  assumes "0 < cap"
  shows "bucket_insert cap (most_recent cap ys) x = Inr (most_recent cap (ys @ [x]))"
proof -
  from assms have c: "0 < nat cap" and e: "int (nat cap) = cap" by simp_all
  from bucket_insert_last_part [OF distinct_remdups c, of ys x] e
  show ?thesis by (simp add: most_recent_def remdups_snoc Let_def)
qed


lemma add_nodes_snoc:
  "add_nodes n (xs @ [x]) = (case add_nodes n xs of Inl e \<Rightarrow> Inl e | Inr n' \<Rightarrow> add_node n' x)"
  by (induction xs arbitrary: n) (auto split: sum.splits)

lemma most_recent_Nil: "most_recent cap [] = []"
  by (simp add: most_recent_def)

lemma length_most_recent: "0 \<le> cap \<Longrightarrow> int (length (most_recent cap ys)) \<le> cap"
  by (auto simp: most_recent_def Let_def)

lemma add_nodes_most_recent:
  assumes cap: "0 < cap" and s: "valid_id s" and ids: "\<forall>x\<in>set ids. valid_id x"
  shows "\<exists>n. add_nodes (init_node s cap) ids = Inr n \<and> node_id n = s \<and> k n = cap
           \<and> length (buckets n) = 160
           \<and> (\<forall>i<160. buckets n ! i
                 = most_recent cap [y\<leftarrow>ids. y \<noteq> s \<and> bucket_index (init_node s cap) y = int i])"
  using ids
proof (induction ids rule: rev_induct)
  case Nil
  show ?case by (simp add: init_node_def most_recent_Nil)
next
  case (snoc x ids)
  let ?P = "\<lambda>i y. y \<noteq> s \<and> bucket_index (init_node s cap) y = int i"
  from snoc obtain n where n: "add_nodes (init_node s cap) ids = Inr n"
    and f: "node_id n = s" "k n = cap" and len: "length (buckets n) = 160"
    and bs: "\<And>i. i < 160 \<Longrightarrow> buckets n ! i = most_recent cap (filter (?P i) ids)"
    by auto
  from snoc.prems have vx: "valid_id x" by simp
  have step: "add_nodes (init_node s cap) (ids @ [x]) = add_node n x"
    using n by (simp add: add_nodes_snoc)
  show ?case
  proof (cases "x = s")
    case True
    then have "add_node n x = Inr n" using f by (simp add: add_node_def)
    moreover have "filter (?P i) (ids @ [x]) = filter (?P i) ids" for i
      using True by simp
    ultimately show ?thesis using step f len bs by simp
  next
    case False
    let ?j = "nat (bucket_index n x)"
    have bi: "bucket_index (init_node s cap) y = bucket_index n y" for y
      by (rule bucket_index_cong) (simp add: f init_node_def)
    have jlt: "?j < 160"
      using bucket_index_upper [of n x] s vx f by simp
    have jint: "bucket_index n x = int ?j"
      using bucket_index_nonneg [of n x] by simp
    let ?b = "most_recent cap (filter (?P ?j) (ids @ [x]))"
    have Pj: "filter (?P ?j) (ids @ [x]) = filter (?P ?j) ids @ [x]"
      using False bi jint by simp
    have "bucket_insert (k n) (buckets n ! ?j) x = Inr ?b"
      using bucket_insert_most_recent [OF cap, of "filter (?P ?j) ids" x] bs [OF jlt] f Pj
      by simp
    then have res: "add_node n x = Inr (n\<lparr>buckets := (buckets n)[?j := ?b]\<rparr>)"
      using add_node_other [of x n] False f len s vx by simp
    have "(buckets n)[?j := ?b] ! i = most_recent cap (filter (?P i) (ids @ [x]))"
      if i: "i < 160" for i
    proof (cases "i = ?j")
      case True
      then show ?thesis using len jlt by simp
    next
      case neq: False
      then have "bucket_index n x \<noteq> int i" using jint by simp
      then have "filter (?P i) (ids @ [x]) = filter (?P i) ids"
        using bi by simp
      with neq bs [OF i] show ?thesis by simp
    qed
    with step res f len show ?thesis by simp
  qed
qed

subsection \<open>The example node with a full bucket\<close>

lemma node_full_fields:
  "node_id node_full = 16" "k node_full = 2" "length (buckets node_full) = 160"
  "buckets node_full ! 5 = [32, 48]"
  by (simp_all add: node_full_def init_node_def)

lemma bucket_index_node_full:
  "bucket_index node_full 33 = 5" "bucket_index node_full 32 = 5"
  "bucket_index node_full 48 = 5"
  by (simp_all add: bucket_index_def distance_def node_full_fields)

lemma valid_id_examples:
  "valid_id 16" "valid_id 32" "valid_id 33" "valid_id 48" "valid_id 64" "valid_id 80"
  by (simp_all add: valid_id_def)

section \<open>The claims\<close>

subsection \<open>C1: lookup\<close>

text \<open>
  Claim C1 says that \<open>lookup\<close> returns the value of the origin's local storage whenever
  the storage has the key. Node \<^verbatim>\<open>0x10\<close> stores the empty string under \<^verbatim>\<open>"k1"\<close>:
  \<open>find_value\<close> on the node returns that value, and \<open>lookup\<close> from the node returns
  \<open>None\<close>.
\<close>

theorem lookup_local_empty_value_failing:
  "find_value demo_hash (store demo_hash (init_node 16 20) ''k1'' []) ''k1'' = Some []
   \<and> lookup demo_hash (dht_add_node init_dht (store demo_hash (init_node 16 20) ''k1'' []))
         16 ''k1'' = None"
  by (simp add: lookup_def dht_add_node_def init_dht_def store_def find_value_def truthy_def
      find_closest_nodes_def init_node_def py_slice_to_def)

subsection \<open>C2: the closest nodes\<close>

text \<open>
  Claim C2 says that \<open>find_closest_nodes\<close> returns \<open>min n totalKnown\<close> identifiers for
  every requested count \<open>n\<close>. Node \<^verbatim>\<open>0x10\<close> knows \<^verbatim>\<open>0x20\<close> alone; asked for
  \<open>0\<close> identifiers it returns one.
\<close>

theorem find_closest_nodes_count_zero_failing:
  "find_closest_nodes node_a 53 (Some 0) = [32]
   \<and> length (find_closest_nodes node_a 53 (Some 0)) \<noteq> min 0 (length (concat (buckets node_a)))"
  by (simp add: find_closest_nodes_zero_is_default closest_node_a_plain)

subsection \<open>C3: the bucket policy of insertion\<close>

text \<open>
  Claim C3. For every node with its 160 buckets and a capacity \<open>k > 0\<close>, and every
  identifier \<open>x\<close> of the address space other than the node's own, \<open>add_node\<close> returns
  normally and changes only the bucket \<open>b\<close> of the index of \<open>x\<close>: if \<open>x\<close> is present it
  moves to the tail and the length is unchanged; else if the length is below \<open>k\<close> it is
  appended at the tail; else the head is evicted and \<open>x\<close> appended at the tail. A bucket
  of at most \<open>k\<close> entries stays so. After any sequence of insertions into the empty
  table, every bucket has at most \<open>k\<close> entries and holds exactly the \<open>k\<close> most recently
  touched distinct identifiers of its index, the least recently touched at the head: the
  entry evicted is always the least recently touched one.
\<close>

theorem add_node_bucket_policy:
  assumes len: "length (buckets n) = 160" and cap: "0 < k n"
    and self: "valid_id (node_id n)" and x: "valid_id x" "x \<noteq> node_id n"
    and ids: "\<forall>y\<in>set ids. valid_id y"
  shows "(let i = nat (bucket_index n x); b = buckets n ! i;
              b' = (if x \<in> set b then remove1 x b @ [x]
                    else if int (length b) < k n then b @ [x]
                    else tl b @ [x])
          in add_node n x = Inr (n\<lparr>buckets := (buckets n)[i := b']\<rparr>)
             \<and> (x \<in> set b \<longrightarrow> length b' = length b)
             \<and> (x \<notin> set b \<and> k n \<le> int (length b)
                  \<longrightarrow> b = hd b # tl b \<and> length b' = length b)
             \<and> (int (length b) \<le> k n \<longrightarrow> int (length b') \<le> k n))
       \<and> (\<exists>n'. add_nodes (init_node (node_id n) (k n)) ids = Inr n'
            \<and> (\<forall>i<160. int (length (buckets n' ! i)) \<le> k n
                 \<and> buckets n' ! i
                     = most_recent (k n) [y\<leftarrow>ids. y \<noteq> node_id n \<and> bucket_index n y = int i]))"
proof -
  let ?i = "nat (bucket_index n x)"
  let ?b = "buckets n ! ?i"
  let ?b' = "if x \<in> set ?b then remove1 x ?b @ [x]
             else if int (length ?b) < k n then ?b @ [x] else tl ?b @ [x]"
  have ins: "bucket_insert (k n) ?b x = Inr ?b'"
    using cap by (rule bucket_insert_cases)
  have res: "add_node n x = Inr (n\<lparr>buckets := (buckets n)[?i := ?b']\<rparr>)"
    using add_node_other [OF x(2) len self x(1)] ins by simp
  have moved: "length ?b' = length ?b" if "x \<in> set ?b"
  proof -
    from that have "0 < length ?b" by (rule length_pos_if_in_set)
    with that show ?thesis by (simp add: length_remove1)
  qed
  have evict: "?b = hd ?b # tl ?b \<and> length ?b' = length ?b"
    if "x \<notin> set ?b \<and> k n \<le> int (length ?b)"
  proof -
    from that cap have "?b \<noteq> []" by auto
    with that show ?thesis by simp
  qed
  have bound: "int (length ?b') \<le> k n" if "int (length ?b) \<le> k n"
    using ins that by (rule bucket_insert_length)
  have step: "let i = nat (bucket_index n x); b = buckets n ! i;
              b' = (if x \<in> set b then remove1 x b @ [x]
                    else if int (length b) < k n then b @ [x]
                    else tl b @ [x])
          in add_node n x = Inr (n\<lparr>buckets := (buckets n)[i := b']\<rparr>)
             \<and> (x \<in> set b \<longrightarrow> length b' = length b)
             \<and> (x \<notin> set b \<and> k n \<le> int (length b)
                  \<longrightarrow> b = hd b # tl b \<and> length b' = length b)
             \<and> (int (length b) \<le> k n \<longrightarrow> int (length b') \<le> k n)"
    unfolding Let_def using res moved evict bound by blast
  have bi: "bucket_index (init_node (node_id n) (k n)) y = bucket_index n y" for y
    by (rule bucket_index_cong) (simp add: init_node_def)
  from add_nodes_most_recent [OF cap self ids] obtain n' where
    n': "add_nodes (init_node (node_id n) (k n)) ids = Inr n'"
    and bs: "\<forall>i<160. buckets n' ! i
       = most_recent (k n) [y\<leftarrow>ids. y \<noteq> node_id n \<and> bucket_index n y = int i]"
    unfolding bi by blast
  have "\<forall>i<160. int (length (buckets n' ! i)) \<le> k n
          \<and> buckets n' ! i
              = most_recent (k n) [y\<leftarrow>ids. y \<noteq> node_id n \<and> bucket_index n y = int i]"
    using bs cap by (simp add: length_most_recent)
  with n' step show ?thesis by blast
qed

theorem add_node_bucket_policy_witness:
  "length (buckets node_full) = 160 \<and> 0 < k node_full \<and> valid_id (node_id node_full)
   \<and> valid_id 33 \<and> 33 \<noteq> node_id node_full \<and> valid_id 32 \<and> valid_id 48
   \<and> 33 \<notin> set (buckets node_full ! 5) \<and> k node_full \<le> int (length (buckets node_full ! 5))
   \<and> add_node node_full 33 = Inr (node_full\<lparr>buckets := (buckets node_full)[5 := [48, 33]]\<rparr>)
   \<and> 32 \<in> set (buckets node_full ! 5)
   \<and> add_node node_full 32 = Inr (node_full\<lparr>buckets := (buckets node_full)[5 := [48, 32]]\<rparr>)
   \<and> (\<exists>n'. add_nodes (init_node 16 2) [32, 48, 33] = Inr n' \<and> buckets n' ! 5 = [48, 33])"
proof -
  note f = node_full_fields
  have v: "valid_id (node_id node_full)" "valid_id 33" "valid_id 32"
    "\<forall>y\<in>set [32, 48, 33]. valid_id y"
    by (simp_all add: f valid_id_examples)
  have ne: "33 \<noteq> node_id node_full" "32 \<noteq> node_id node_full" and cap: "0 < k node_full"
    by (simp_all add: f)
  have mr: "most_recent (k node_full)
               [y\<leftarrow>[32, 48, 33]. y \<noteq> node_id node_full \<and> bucket_index node_full y = int 5]
              = [48, 33]"
    by (simp add: bucket_index_node_full most_recent_def f)
  note evict = add_node_bucket_policy [OF f(3) cap v(1) v(2) ne(1) v(4)]
  note touch = add_node_bucket_policy [OF f(3) cap v(1) v(3) ne(2) v(4)]
  from evict [THEN conjunct1]
  have a: "add_node node_full 33 = Inr (node_full\<lparr>buckets := (buckets node_full)[5 := [48, 33]]\<rparr>)"
    by (simp add: Let_def bucket_index_node_full f)
  from touch [THEN conjunct1]
  have b: "add_node node_full 32 = Inr (node_full\<lparr>buckets := (buckets node_full)[5 := [48, 32]]\<rparr>)"
    by (simp add: Let_def bucket_index_node_full f)
  from evict [THEN conjunct2] obtain n' where
    n': "add_nodes (init_node (node_id node_full) (k node_full)) [32, 48, 33] = Inr n'"
    and every: "\<forall>i<160. int (length (buckets n' ! i)) \<le> k node_full
       \<and> buckets n' ! i = most_recent (k node_full)
           [y\<leftarrow>[32, 48, 33]. y \<noteq> node_id node_full \<and> bucket_index node_full y = int i]"
    by blast
  have "(5::nat) < 160" by simp
  with every have "buckets n' ! 5 = most_recent (k node_full)
           [y\<leftarrow>[32, 48, 33]. y \<noteq> node_id node_full \<and> bucket_index node_full y = int 5]"
    by blast
  with mr have "buckets n' ! 5 = [48, 33]" by simp
  moreover from n' have "add_nodes (init_node 16 2) [32, 48, 33] = Inr n'"
    by (simp only: f)
  ultimately have c: "\<exists>n'. add_nodes (init_node 16 2) [32, 48, 33] = Inr n' \<and> buckets n' ! 5 = [48, 33]"
    by blast
  from a b c v(1-3) ne cap show ?thesis by (simp add: f valid_id_examples)
qed

subsection \<open>C4: the XOR distance is a metric with unique inverses\<close>

text \<open>
  Claim C4. For all identifiers \<open>a\<close> and \<open>b\<close> of the 160-bit address space:
  \<open>distance a b\<close> equals \<open>distance b a\<close>; it is zero exactly when \<open>a = b\<close>; the
  triangle inequality holds through every identifier \<open>c\<close>; and for every magnitude \<open>d\<close>
  of the address space there is exactly one identifier \<open>b'\<close> with \<open>distance a b' = d\<close>
  (and exactly one integer at all).
\<close>

theorem distance_metric:
  assumes "valid_id a" "valid_id b" "valid_id c" "valid_id d"
  shows "distance a b = distance b a
       \<and> (distance a b = 0 \<longleftrightarrow> a = b)
       \<and> distance a c \<le> distance a b + distance b c
       \<and> (\<exists>!b'. valid_id b' \<and> distance a b' = d)
       \<and> (\<exists>!b'. distance a b' = d)"
proof -
  have sym: "distance a b = distance b a"
    by (simp add: distance_def xor.commute)
  have zero: "distance a b = 0 \<longleftrightarrow> a = b"
    by (simp add: distance_def xor_zero_iff)
  have tri: "distance a c \<le> distance a b + distance b c"
    using assms by (simp add: distance_def valid_id_def xor_triangle)
  have "valid_id (a XOR d)" using assms by (simp add: valid_id_xor)
  moreover have "distance a (a XOR d) = d"
    by (simp add: distance_def)
  moreover have "\<And>y. distance a y = d \<Longrightarrow> y = a XOR d"
    by (auto simp: distance_def)
  ultimately have uniq: "\<exists>!b'. valid_id b' \<and> distance a b' = d"
    by blast
  have uniq': "\<exists>!b'. distance a b' = d"
    unfolding distance_def by (rule xor_unique)
  from sym zero tri uniq uniq' show ?thesis by blast
qed

theorem distance_metric_witness:
  "valid_id 10 \<and> valid_id 12 \<and> valid_id 5 \<and> valid_id 6
   \<and> distance 10 12 = 6 \<and> distance 12 10 = 6 \<and> distance 10 12 \<noteq> 0
   \<and> distance 10 5 \<le> distance 10 12 + distance 12 5
   \<and> (\<exists>!b'. valid_id b' \<and> distance 10 b' = 6)"
proof -
  have v: "valid_id 10" "valid_id 12" "valid_id 5" "valid_id 6"
    by (simp_all add: valid_id_def)
  have e: "distance 10 12 = 6" "distance 12 10 = 6" by (simp_all add: distance_def)
  from distance_metric [OF v] v e show ?thesis by simp
qed

subsection \<open>C5: the routing table invariants\<close>

text \<open>
  Claim C5. After any sequence of insertions of identifiers of the address space into the
  empty routing table of a node (capacity \<open>k > 0\<close>), the insertions have all returned
  normally, every bucket has length at most \<open>k\<close> and no duplicate entry, no identifier
  appears in two buckets, and the node's own identifier is in no bucket.
\<close>

theorem routing_table_invariants:
  assumes "0 < cap" "valid_id s" "\<forall>x\<in>set ids. valid_id x"
  shows "\<exists>n. add_nodes (init_node s cap) ids = Inr n
     \<and> node_id n = s \<and> k n = cap
     \<and> length (buckets n) = 160
     \<and> (\<forall>b\<in>set (buckets n). int (length b) \<le> cap \<and> distinct b)
     \<and> (\<forall>i<160. \<forall>j<160. \<forall>x. x \<in> set (buckets n ! i) \<and> x \<in> set (buckets n ! j) \<longrightarrow> i = j)
     \<and> s \<notin> set (concat (buckets n))"
proof -
  have "table_inv (init_node s cap)" using assms(1) by (simp add: table_inv_init)
  moreover have "node_id (init_node s cap) = s" "k (init_node s cap) = cap"
    by (simp_all add: init_node_def)
  ultimately obtain n where n: "add_nodes (init_node s cap) ids = Inr n" "table_inv n"
    "node_id n = s" "k n = cap"
    using add_nodes_total_inv [of "init_node s cap" ids] assms by auto
  note len = table_invD(1) [OF n(2)]
  have each: "int (length (buckets n ! i)) \<le> k n \<and> distinct (buckets n ! i)
        \<and> (\<forall>x\<in>set (buckets n ! i). x \<noteq> node_id n \<and> bucket_index n x = int i)"
    if "i < 160" for i
    using table_invD(2-5) [OF n(2) that] by blast
  have a: "\<forall>b\<in>set (buckets n). int (length b) \<le> cap \<and> distinct b"
    using each len n(4) by (auto simp: in_set_conv_nth)
  have b: "\<forall>i<160. \<forall>j<160. \<forall>x. x \<in> set (buckets n ! i) \<and> x \<in> set (buckets n ! j) \<longrightarrow> i = j"
  proof (intro allI impI)
    fix i j x
    assume "i < 160" "j < 160" "x \<in> set (buckets n ! i) \<and> x \<in> set (buckets n ! j)"
    with each [of i] each [of j] have "bucket_index n x = int i" "bucket_index n x = int j"
      by auto
    then show "i = j" by simp
  qed
  have c: "s \<notin> set (concat (buckets n))"
  proof
    assume "s \<in> set (concat (buckets n))"
    then obtain b where "b \<in> set (buckets n)" "s \<in> set b" by auto
    then obtain i where "i < 160" "s \<in> set (buckets n ! i)"
      using len by (auto simp: in_set_conv_nth)
    with each [of i] n(3) show False by auto
  qed
  from n(1,3,4) len a b c show ?thesis by blast
qed

theorem routing_table_invariants_witness:
  "(0::int) < 3 \<and> valid_id 16 \<and> valid_id 32 \<and> valid_id 48 \<and> valid_id 64 \<and> valid_id 80
   \<and> add_nodes (init_node 16 3) [32, 48, 64, 80, 16] = Inr node_x
   \<and> length (buckets node_x) = 160
   \<and> concat (buckets node_x) = [32, 48, 64, 80]
   \<and> 16 \<notin> set (concat (buckets node_x))"
proof -
  have v: "valid_id 16" "\<forall>x\<in>set [32, 48, 64, 80, 16]. valid_id x"
    by (simp_all add: valid_id_examples)
  have r: "add_nodes (init_node 16 3) [32, 48, 64, 80, 16] = Inr node_x"
    by (simp add: node_x_def add_node_def init_node_def bucket_index_def distance_def
        py_index_def bucket_insert_def)
  from routing_table_invariants [OF _ v, of 3] r
  have "length (buckets node_x) = 160" and "16 \<notin> set (concat (buckets node_x))"
    by simp_all
  with r show ?thesis by (simp add: valid_id_examples concat_node_x)
qed

subsection \<open>C6: local storage\<close>

text \<open>
  Claim C6. On every node and for every key, \<open>store\<close> followed by \<open>find_value\<close> with the
  same key returns the value stored; a second \<open>store\<close> under the same key overwrites the
  first (last write wins); and \<open>find_value\<close> of a key whose hash is absent from the storage
  returns \<open>None\<close>, an ordinary result (\<^verbatim>\<open>dict.get\<close> does not raise, and
  \<^const>\<open>find_value\<close> has no error result). \<open>store\<close> leaves the node's identity and
  routing table alone.
\<close>

theorem store_find_value:
  "find_value H (store H n key v) key = Some v
   \<and> find_value H (store H (store H n key v1) key v2) key = Some v2
   \<and> (H key \<notin> dom (storage n) \<longrightarrow> find_value H n key = None)
   \<and> node_id (store H n key v) = node_id n
   \<and> buckets (store H n key v) = buckets n"
  by (auto simp: find_value_def store_def)

theorem store_find_value_witness:
  "(\<lambda>s. int (length s)) ''k1'' \<notin> dom (storage (init_node 16 20))
   \<and> find_value (\<lambda>s. int (length s)) (init_node 16 20) ''k1'' = None
   \<and> find_value (\<lambda>s. int (length s))
         (store (\<lambda>s. int (length s)) (init_node 16 20) ''k1'' ''v1'') ''k1'' = Some ''v1''"
  using store_find_value [of "\<lambda>s. int (length s)" "init_node 16 20" "''k1''" "''v1''"]
  by (simp add: init_node_def)

subsection \<open>C7: the bucket index\<close>

text \<open>
  Claim C7. For every node identity and all identifiers \<open>x\<close> and \<open>y\<close> of the 160-bit
  address space with non-zero distances from the node: if \<open>x\<close> is closer than \<open>y\<close> then
  the bucket index of \<open>x\<close> is at most that of \<open>y\<close>. The bucket index is
  \<open>bit_length (distance self x) - 1\<close>, and \<open>0\<close> when the distance is \<open>0\<close>; it lies in
  \<open>[0, 160)\<close>; and for a non-zero distance it is the position of the highest set bit:
  \<open>2 ^ index \<le> distance < 2 ^ (index + 1)\<close>.
\<close>

theorem bucket_index_highest_bit:
  assumes "valid_id (node_id n)" "valid_id x" "valid_id y"
  shows "(distance (node_id n) x \<noteq> 0 \<and> distance (node_id n) y \<noteq> 0
            \<and> distance (node_id n) x < distance (node_id n) y
          \<longrightarrow> bucket_index n x \<le> bucket_index n y)
       \<and> bucket_index n x =
           (if distance (node_id n) x = 0 then 0 else bit_length (distance (node_id n) x) - 1)
       \<and> 0 \<le> bucket_index n x \<and> bucket_index n x < 160
       \<and> (distance (node_id n) x \<noteq> 0
          \<longrightarrow> 2 ^ nat (bucket_index n x) \<le> distance (node_id n) x
            \<and> distance (node_id n) x < 2 ^ (nat (bucket_index n x) + 1))"
proof -
  let ?d = "distance (node_id n) x"
  have "valid_id ?d" using assms by (simp add: distance_def valid_id_xor)
  then have nonneg: "0 \<le> ?d" unfolding valid_id_def by blast
  have mono: "?d \<noteq> 0 \<and> distance (node_id n) y \<noteq> 0 \<and> ?d < distance (node_id n) y
              \<longrightarrow> bucket_index n x \<le> bucket_index n y"
    by (simp add: bucket_index_mono)
  have form: "bucket_index n x = (if ?d = 0 then 0 else bit_length ?d - 1)"
    using nonneg by (simp add: bucket_index_def Let_def)
  have range: "0 \<le> bucket_index n x" "bucket_index n x < 160"
    using assms by (simp_all add: bucket_index_nonneg bucket_index_upper)
  have bit: "2 ^ nat (bucket_index n x) \<le> ?d \<and> ?d < 2 ^ (nat (bucket_index n x) + 1)"
    if nz: "?d \<noteq> 0"
  proof -
    from nz nonneg have pos: "0 < ?d" by simp
    then have idx: "bucket_index n x = bit_length ?d - 1"
      by (simp add: bucket_index_def Let_def)
    from pos have "0 < bit_length ?d" by (rule bit_length_pos)
    then have "nat (bit_length ?d - 1) + 1 = nat (bit_length ?d)" by simp
    with bit_length_lower [OF pos] bit_length_upper [OF nonneg] idx
    show ?thesis by simp
  qed
  from mono form range bit show ?thesis by blast
qed

theorem bucket_index_highest_bit_witness:
  "valid_id (node_id (init_node 128 3)) \<and> valid_id 129 \<and> valid_id 192
   \<and> distance (node_id (init_node 128 3)) 129 \<noteq> 0
   \<and> distance (node_id (init_node 128 3)) 192 \<noteq> 0
   \<and> distance (node_id (init_node 128 3)) 129 < distance (node_id (init_node 128 3)) 192
   \<and> bucket_index (init_node 128 3) 129 \<le> bucket_index (init_node 128 3) 192
   \<and> bucket_index (init_node 128 3) 192 < 160
   \<and> 2 ^ nat (bucket_index (init_node 128 3) 192) \<le> distance (node_id (init_node 128 3)) 192"
proof -
  have v: "valid_id (node_id (init_node 128 3))" "valid_id 129" "valid_id 192"
    by (simp_all add: valid_id_def init_node_def)
  have d: "distance (node_id (init_node 128 3)) 129 \<noteq> 0"
     "distance (node_id (init_node 128 3)) 192 \<noteq> 0"
     "distance (node_id (init_node 128 3)) 129 < distance (node_id (init_node 128 3)) 192"
    by (simp_all add: distance_def init_node_def)
  from bucket_index_highest_bit [OF v(1) v(2) v(3)] bucket_index_highest_bit [OF v(1) v(3) v(2)]
    v d show ?thesis by blast
qed

subsection \<open>C8: inserting the node's own identifier\<close>

text \<open>
  Claim C8 says that inserting a node's own identifier into its routing table fails loudly.
  The source guards the case with \<^verbatim>\<open>if node_id == self.node_id: return\<close>: the call
  returns normally and changes nothing. At node \<^verbatim>\<open>0x10\<close>:
\<close>

theorem add_node_self_counterexample:
  "add_node (init_node 16 20) 16 = Inr (init_node 16 20)"
  by (simp add: add_node_def init_node_def)

text \<open>
  Claim C8, amended. For every node, inserting the node's own identifier into its own
  routing table is a silent no-op: \<open>add_node\<close> returns normally, with the node unchanged.
\<close>

theorem add_node_self_noop: "add_node n (node_id n) = Inr n"
  by (simp add: add_node_def)

subsection \<open>C9: an empty string is a miss for lookup\<close>

text \<open>
  Claim C9. For every registered origin node and every key whose stored value is the
  empty string, on the origin and on every candidate of the origin that the registry
  resolves (a node may also not hold the key at all), \<open>lookup\<close> returns \<open>None\<close>: a hit
  is detected by the truth value of the string, not by its presence, although
  \<open>find_value\<close> on a node that stored the empty string returns it.
\<close>

theorem lookup_empty_string_is_miss:
  assumes "nodes dht nid = Some n"
    and "find_value H n key = None \<or> find_value H n key = Some []"
    and "\<forall>c\<in>set (find_closest_nodes n (H key) None). \<forall>m. nodes dht c = Some m
           \<longrightarrow> find_value H m key = None \<or> find_value H m key = Some []"
  shows "lookup H dht nid key = None
       \<and> find_value H (store H n key []) key = Some []"
proof -
  from assms(2) have miss: "\<not> truthy (find_value H n key)"
    by (auto simp: truthy_iff)
  from assms(3) have "\<forall>c\<in>set (find_closest_nodes n (H key) None). \<forall>m. nodes dht c = Some m
           \<longrightarrow> \<not> truthy (find_value H m key)"
    by (fastforce simp: truthy_iff)
  then have "query_closest H dht key (find_closest_nodes n (H key) None) = None"
    by (simp only: query_closest_None_iff)
  with assms(1) miss have "lookup H dht nid key = None"
    by (simp add: lookup_local_miss)
  moreover have "find_value H (store H n key []) key = Some []"
    by (simp add: find_value_def store_def)
  ultimately show ?thesis by simp
qed

theorem lookup_empty_string_is_miss_witness:
  "nodes dht_empty_value 16 = Some (store demo_hash node_a ''k2'' [])
   \<and> find_value demo_hash (store demo_hash node_a ''k2'' []) ''k2'' = Some []
   \<and> nodes dht_empty_value 32 = Some (store demo_hash node_b ''k2'' [])
   \<and> find_value demo_hash (store demo_hash node_b ''k2'' []) ''k2'' = Some []
   \<and> lookup demo_hash dht_empty_value 16 ''k2'' = None"
proof -
  have a: "find_value demo_hash (store demo_hash node_a ''k2'' []) ''k2'' = Some []"
    and b: "find_value demo_hash (store demo_hash node_b ''k2'' []) ''k2'' = Some []"
    by (simp_all add: find_value_def store_def)
  have c: "\<forall>c\<in>set (find_closest_nodes (store demo_hash node_a ''k2'' []) (demo_hash ''k2'') None).
             \<forall>m. nodes dht_empty_value c = Some m
               \<longrightarrow> find_value demo_hash m ''k2'' = None \<or> find_value demo_hash m ''k2'' = Some []"
    using b by (simp add: demo_hash_def closest_node_a nodes_dht_empty_value)
  from lookup_empty_string_is_miss [OF nodes_dht_empty_value(1) disjI2 [OF a] c]
    nodes_dht_empty_value a b
  show ?thesis by simp
qed

subsection \<open>C10: an explicit count of 0\<close>

text \<open>
  Claim C10. For every routing table (with a capacity \<open>k \<ge> 0\<close>) and every target,
  \<open>find_closest_nodes\<close> with an explicit count of \<open>0\<close> returns the first
  \<open>min k totalKnown\<close> members in ascending distance, not the empty sequence: the count
  \<open>0\<close> is replaced by \<open>k\<close>, so the result is that of the call without a count, and it is
  non-empty as soon as \<open>k > 0\<close> and a member is known.
\<close>

theorem find_closest_nodes_count_zero:
  assumes "0 \<le> k n"
  shows "find_closest_nodes n t (Some 0)
           = take (nat (k n)) (sort_key (distance t) (concat (buckets n)))
       \<and> sorted (map (distance t) (find_closest_nodes n t (Some 0)))
       \<and> length (find_closest_nodes n t (Some 0)) = min (nat (k n)) (length (concat (buckets n)))
       \<and> find_closest_nodes n t (Some 0) = find_closest_nodes n t None
       \<and> (0 < k n \<and> concat (buckets n) \<noteq> [] \<longrightarrow> find_closest_nodes n t (Some 0) \<noteq> [])"
proof -
  have eq: "find_closest_nodes n t (Some 0)
           = take (nat (k n)) (sort_key (distance t) (concat (buckets n)))"
    using assms by (simp add: find_closest_nodes_def py_slice_to_def)
  have s: "sorted (map (distance t) (find_closest_nodes n t (Some 0)))"
    unfolding eq by (rule sorted_take_sort_key)
  have len: "length (find_closest_nodes n t (Some 0))
           = min (nat (k n)) (length (concat (buckets n)))"
    unfolding eq by simp
  have dflt: "find_closest_nodes n t (Some 0) = find_closest_nodes n t None"
    by (rule find_closest_nodes_zero_is_default)
  have ne: "find_closest_nodes n t (Some 0) \<noteq> []" if "0 < k n \<and> concat (buckets n) \<noteq> []"
  proof -
    from that have "0 < length (find_closest_nodes n t (Some 0))"
      unfolding len by simp
    then show ?thesis by simp
  qed
  from eq s len dflt ne show ?thesis by blast
qed

theorem find_closest_nodes_count_zero_witness:
  "0 \<le> k node_x \<and> 0 < k node_x \<and> concat (buckets node_x) \<noteq> []
   \<and> find_closest_nodes node_x 53 (Some 0) = [48, 32, 80]
   \<and> find_closest_nodes node_x 53 (Some 0) \<noteq> []"
proof -
  have c: "0 \<le> k node_x" "0 < k node_x" by (simp_all add: node_x_def init_node_def)
  have ne: "concat (buckets node_x) \<noteq> []" by (simp add: concat_node_x)
  have s: "take (nat (k node_x)) (sort_key (distance 53) (concat (buckets node_x))) = [48, 32, 80]"
    unfolding concat_node_x by (simp add: node_x_def init_node_def distance_def)
  from find_closest_nodes_count_zero [OF c(1), of 53] c(2) ne
  have "find_closest_nodes node_x 53 (Some 0)
          = take (nat (k node_x)) (sort_key (distance 53) (concat (buckets node_x)))"
    and "find_closest_nodes node_x 53 (Some 0) \<noteq> []"
    by blast+
  with c ne s show ?thesis by simp
qed

end
